theory Spec2Isabelle
  imports Main "HOL-Library.Word" "HOL-Library.Sublist" "HOL-Library.Char_ord"
    "HOL-Library.List_Lexorder" "HOL-Library.Product_Lexorder"
begin

section \<open>The distiller core of ECE\_Core\<close>

text \<open>
  Source: \<^verbatim>\<open>src/ece/agents/tier3/distiller/distiller_core.cpp\<close>. A \<^verbatim>\<open>std::string\<close> is a
  \<^typ>\<open>string\<close> (a list of 8-bit characters), a \<^verbatim>\<open>std::vector\<close> a list, a C++ \<^verbatim>\<open>int\<close> a
  32-bit word read in two's complement, and a \<^verbatim>\<open>std::map\<close> the list of its entries in
  iteration order, which is ascending key order. \<^verbatim>\<open>std::string\<close> compares bytes as unsigned
  values, lexicographically; so do the orders on characters and lists used here, and
  \<^verbatim>\<open>std::tuple\<close> compares componentwise from the left as the lexicographic order on
  products does.
\<close>

subsection \<open>Standard-library operations the code calls\<close>

type_synonym cint = "32 word"

text \<open>\<^verbatim>\<open>std::isspace\<close> in the classic locale, the one a default \<^verbatim>\<open>istringstream\<close> uses.\<close>

definition isspace :: "char \<Rightarrow> bool" where
  "isspace c = (c \<in> set [CHR 0x20, CHR 0x09, CHR 0x0A, CHR 0x0B, CHR 0x0C, CHR 0x0D])"

text \<open>
  \<^verbatim>\<open>while (iss >> token) tokens.push_back(token);\<close>
  Each extraction skips leading whitespace and reads up to the next whitespace or the end of
  the input; it fails, ending the loop, when nothing but whitespace is left.
\<close>

function read_tokens :: "string \<Rightarrow> string list" where
  "read_tokens s =
     (let r = dropWhile isspace s in
      if r = [] then []
      else takeWhile (\<lambda>c. \<not> isspace c) r # read_tokens (dropWhile (\<lambda>c. \<not> isspace c) r))"
  by pat_completeness auto
termination
proof (relation "measure length")
  show "wf (measure length)" by simp
next
  fix s r :: string
  assume r: "r = dropWhile isspace s" and ne: "r \<noteq> []"
  from ne obtain c r' where cr: "r = c # r'" by (cases r) auto
  have "\<not> isspace (hd r)" using hd_dropWhile [of isspace s] ne unfolding r by blast
  then have "\<not> isspace c" by (simp add: cr)
  then have "length (dropWhile (\<lambda>c. \<not> isspace c) r) \<le> length r'"
    by (simp add: cr length_dropWhile_le)
  also have "\<dots> < length r" by (simp add: cr)
  also have "\<dots> \<le> length s" by (simp add: r length_dropWhile_le)
  finally show "(dropWhile (\<lambda>c. \<not> isspace c) r, s) \<in> measure length" by simp
qed

declare read_tokens.simps [simp del]

text \<open>
  \<^verbatim>\<open>while (std::getline(iss, sentence, '.')) sentences.push_back(sentence);\<close>
  \<^verbatim>\<open>getline\<close> reads up to the next period, which it consumes and does not store, or up to the
  end of the input. It fails, ending the loop, when it is called at the end of the input.
\<close>

function getline_loop :: "string \<Rightarrow> string list" where
  "getline_loop s =
     (if s = [] then []
      else takeWhile (\<lambda>c. c \<noteq> CHR ''.'') s #
           (case dropWhile (\<lambda>c. c \<noteq> CHR ''.'') s of
              [] \<Rightarrow> []
            | delim # rest \<Rightarrow> getline_loop rest))"
  by pat_completeness auto
termination
proof (relation "measure length")
  show "wf (measure length)" by simp
next
  fix s rest :: string and delim :: char
  assume "dropWhile (\<lambda>c. c \<noteq> CHR ''.'') s = delim # rest"
  then have "Suc (length rest) = length (dropWhile (\<lambda>c. c \<noteq> CHR ''.'') s)" by simp
  also have "\<dots> \<le> length s" by (rule length_dropWhile_le)
  finally show "(rest, s) \<in> measure length" by simp
qed

declare getline_loop.simps [simp del]

text \<open>
  \<^verbatim>\<open>sentence.find(entity)\<close>: the least position where \<^verbatim>\<open>entity\<close> starts in \<^verbatim>\<open>sentence\<close>,
  \<^verbatim>\<open>npos\<close> (here \<^const>\<open>None\<close>) when there is none. The empty string is found at position 0
  of every string.
\<close>

fun str_find :: "string \<Rightarrow> string \<Rightarrow> nat option" where
  "str_find [] e = (if e = [] then Some 0 else None)"
| "str_find (c # s) e =
     (if prefix e (c # s) then Some 0 else map_option Suc (str_find s e))"

abbreviation npos :: "nat option" where
  "npos \<equiv> None"

text \<open>
  \<^verbatim>\<open>m[k] = v\<close> on a \<^verbatim>\<open>std::map\<close>: the entry of \<^verbatim>\<open>k\<close> is replaced, or a new entry is put
  at its place in key order.
\<close>

type_synonym ('k, 'v) std_map = "('k \<times> 'v) list"

fun map_assign :: "'k::linorder \<Rightarrow> 'v \<Rightarrow> ('k, 'v) std_map \<Rightarrow> ('k, 'v) std_map" where
  "map_assign k v [] = [(k, v)]"
| "map_assign k v ((k', v') # m) =
     (if k < k' then (k, v) # (k', v') # m
      else if k = k' then (k, v) # m
      else (k', v') # map_assign k v m)"

text \<open>
  \<^verbatim>\<open>static_cast<int>(tokens.size())\<close>: the size, an unsigned 64-bit count, reduced modulo
  \<open>2\<^sup>3\<^sup>2\<close> and read as a signed value.
\<close>

definition static_cast_int :: "nat \<Rightarrow> cint" where
  "static_cast_int n = word_of_nat n"

text \<open>
  The matching engine \<^verbatim>\<open>std::regex\<close> is not part of the repository. It enters as a parameter:
  for a pattern (its source text) and a subject string, the strings \<^verbatim>\<open>iter->str()\<close> that a
  \<^verbatim>\<open>std::sregex_iterator\<close> yields from its first position to the end iterator, that is the
  successive non-overlapping matches from left to right.
\<close>

type_synonym regex = string
type_synonym regex_engine = "regex \<Rightarrow> string \<Rightarrow> string list"

subsection \<open>\<^verbatim>\<open>DistillerCore::initialize_patterns\<close>\<close>

definition bsl :: string where
  "bsl = [CHR 0x5C]"

definition dquote :: string where
  "dquote = [CHR 0x22]"

definition person_pattern :: regex where
  "person_pattern = bsl @ ''b[A-Z][a-z]+ [A-Z][a-z]+'' @ bsl @ ''b''"

definition organization_pattern :: regex where
  "organization_pattern =
     bsl @ ''b[A-Z][A-Z]+'' @ bsl @ ''b|'' @ bsl @ ''b[A-Z][a-z]+ [A-Z][a-z]+'' @ bsl @ ''b''"

definition location_pattern :: regex where
  "location_pattern =
     bsl @ ''b[A-Z][a-z]+(?: [A-Z][a-z]+)*, [A-Z]{2}'' @ bsl @ ''b|'' @
     bsl @ ''b[A-Z][a-z]+(?: [A-Z][a-z]*)* (?:St|Ave|Rd|Blvd|Dr|Ln|Ct|Pl)'' @ bsl @ ''b''"

definition date_pattern :: regex where
  "date_pattern =
     bsl @ ''b(?:Jan|Feb|Mar|Apr|May|Jun|Jul|Aug|Sep|Oct|Nov|Dec) '' @ bsl @ ''d{1,2},? '' @
     bsl @ ''d{4}'' @ bsl @ ''b|'' @
     bsl @ ''b'' @ bsl @ ''d{1,2}/'' @ bsl @ ''d{1,2}/'' @ bsl @ ''d{4}'' @ bsl @ ''b''"

definition email_pattern :: regex where
  "email_pattern =
     bsl @ ''b[A-Za-z0-9._%+-]+@[A-Za-z0-9.-]+'' @ bsl @ ''.[A-Z|a-z]{2,}'' @ bsl @ ''b''"

definition url_pattern :: regex where
  "url_pattern =
     ''https?://[^'' @ bsl @ ''s<>'' @ dquote @ '']+|www'' @ bsl @ ''.[^'' @ bsl @ ''s<>'' @
     dquote @ '']+''"

text \<open>The member \<^verbatim>\<open>entity_patterns_\<close> after the constructor has run.\<close>

definition initialize_patterns :: "(string, regex) std_map" where
  "initialize_patterns =
     map_assign ''url'' url_pattern
       (map_assign ''email'' email_pattern
         (map_assign ''date'' date_pattern
           (map_assign ''location'' location_pattern
             (map_assign ''organization'' organization_pattern
               (map_assign ''person'' person_pattern [])))))"

subsection \<open>\<^verbatim>\<open>DistillerCore::extract_entities\<close>\<close>

text \<open>
  The inner \<^verbatim>\<open>while (iter != end)\<close> loop over the matches still to come, with the vector
  \<^verbatim>\<open>matches\<close> built so far; \<^verbatim>\<open>std::find\<close> reaches \<^verbatim>\<open>matches.end()\<close> exactly when the
  match is not in the vector yet.
\<close>

fun collect_matches :: "string list \<Rightarrow> string list \<Rightarrow> string list" where
  "collect_matches [] matches = matches"
| "collect_matches (match # iter) matches =
     collect_matches iter (if match \<notin> set matches then matches @ [match] else matches)"

definition extract_entities :: "regex_engine \<Rightarrow> string \<Rightarrow> (string, string list) std_map" where
  "extract_entities rx text =
     fold (\<lambda>(entity_type, pattern) entities.
             map_assign entity_type (collect_matches (rx pattern text) []) entities)
          initialize_patterns []"

subsection \<open>\<^verbatim>\<open>DistillerCore::extract_relationships\<close>\<close>

text \<open>The vector \<^verbatim>\<open>relationships\<close> after the nested loops, in \<^verbatim>\<open>push_back\<close> order.\<close>

definition candidate_relationships ::
  "string list \<Rightarrow> (string, string list) std_map \<Rightarrow> (string \<times> string \<times> string) list" where
  "candidate_relationships sentences entities =
     [(entity1, ''RELATED_TO_'' @ entity_type2, entity2).
        sentence \<leftarrow> sentences,
        (entity_type1, entity_list1) \<leftarrow> entities,
        entity1 \<leftarrow> entity_list1,
        str_find sentence entity1 \<noteq> npos,
        (entity_type2, entity_list2) \<leftarrow> entities,
        entity2 \<leftarrow> entity_list2,
        entity2 \<noteq> entity1 \<and> str_find sentence entity2 \<noteq> npos]"

text \<open>
  \<^verbatim>\<open>std::sort\<close> followed by \<^verbatim>\<open>erase(unique(...))\<close>. The order on triples of strings is
  total and two triples that compare equivalent are equal, so the sorted vector is determined:
  it is \<^const>\<open>sort\<close> of the vector. \<^verbatim>\<open>std::unique\<close> keeps the first element of every run of
  equal neighbours, which is \<^const>\<open>remdups_adj\<close>.
\<close>

definition extract_relationships ::
  "string \<Rightarrow> (string, string list) std_map \<Rightarrow> (string \<times> string \<times> string) list" where
  "extract_relationships text entities =
     (let sentences = getline_loop text;
          relationships = candidate_relationships sentences entities
      in remdups_adj (sort relationships))"

subsection \<open>\<^verbatim>\<open>DistillerCore::summarize_text\<close>\<close>

text \<open>
  The \<^verbatim>\<open>for\<close> loop, with the counter \<^verbatim>\<open>i\<close> and the string \<^verbatim>\<open>summary\<close> built so far.
  The guard keeps \<^verbatim>\<open>i\<close> below \<^verbatim>\<open>max_length\<close>, so \<^verbatim>\<open>++i\<close> never overflows.
\<close>

function summary_loop :: "string list \<Rightarrow> cint \<Rightarrow> cint \<Rightarrow> string \<Rightarrow> string" where
  "summary_loop tokens max_length i summary =
     (if i <s max_length \<and> i <s static_cast_int (length tokens)
      then summary_loop tokens max_length (i + 1)
             ((if 0 <s i then summary @ '' '' else summary) @ tokens ! unat i)
      else summary)"
  by pat_completeness auto
termination
proof (relation "measure (\<lambda>(tokens, max_length, i, summary). nat (sint max_length - sint i))")
  show "wf (measure (\<lambda>(tokens, max_length, i, summary). nat (sint max_length - sint i)))"
    by simp
next
  fix tokens :: "string list" and max_length i :: cint and summary :: string
  assume "i <s max_length \<and> i <s static_cast_int (length tokens)"
  then have lt: "sint i < sint max_length" by (simp add: word_sless_alt)
  moreover have "sint max_length < 2 ^ 31" using sint_lt [of max_length] by simp
  moreover have "- (2 ^ 31) \<le> sint i" using sint_ge [of i] by simp
  ultimately have "sint (i + 1) = sint i + 1"
    by (simp add: sint_word_ariths signed_take_bit_int_eq_self)
  with lt show "((tokens, max_length, i + 1,
                  (if 0 <s i then summary @ '' '' else summary) @ tokens ! unat i),
                 (tokens, max_length, i, summary))
                \<in> measure (\<lambda>(tokens, max_length, i, summary). nat (sint max_length - sint i))"
    by simp
qed

declare summary_loop.simps [simp del]

definition summarize_text :: "string \<Rightarrow> cint \<Rightarrow> string" where
  "summarize_text text max_length =
     (let tokens = read_tokens text in
      if static_cast_int (length tokens) \<le>s max_length then text
      else summary_loop tokens max_length 0 [])"

subsection \<open>Specification-side notions\<close>

text \<open>Strings joined by single ASCII spaces.\<close>

fun join_sp :: "string list \<Rightarrow> string" where
  "join_sp [] = []"
| "join_sp [t] = t"
| "join_sp (t # u # ts) = t @ '' '' @ join_sp (u # ts)"

text \<open>A text of \<open>2\<^sup>3\<^sup>1\<close> tokens: the two bytes \<^verbatim>\<open>a\<close> and space, \<open>2\<^sup>3\<^sup>1\<close> times (4 GiB).\<close>

definition overlong_text :: string where
  "overlong_text = concat (replicate (2 ^ 31) ''a '')"

text \<open>
  The values of a sequence in the order of their first occurrence, and the position of the
  first occurrence of a value.
\<close>

fun first_occurrences :: "'a list \<Rightarrow> 'a list" where
  "first_occurrences [] = []"
| "first_occurrences (x # xs) = x # filter (\<lambda>y. y \<noteq> x) (first_occurrences xs)"

definition first_index :: "'a list \<Rightarrow> 'a \<Rightarrow> nat" where
  "first_index xs x = length (takeWhile (\<lambda>y. y \<noteq> x) xs)"

section \<open>Properties of the summarizer\<close>

subsection \<open>Conversions between the token count and \<^verbatim>\<open>int\<close>\<close>

lemma sint_le_uint: "sint (w::cint) \<le> uint w"
proof -
  have "- (2 ^ 31) \<le> (0::int)" by simp
  also have "\<dots> \<le> uint w" by simp
  finally have "- (2 ^ 31) \<le> uint w" .
  then show ?thesis by (simp add: sint_uint signed_take_bit_int_less_eq_self_iff)
qed

lemma sint_nonneg_uint: 
  assumes "0 \<le> sint (w::cint)" shows "sint w = uint w"
proof -
  have u: "uint w < 2 ^ 32" using uint_lt2p [of w] by simp
  have "sint w = take_bit 32 (uint w) - 2 ^ 32 * of_bool (bit (uint w) 31)"
    by (simp add: sint_uint signed_take_bit_eq_take_bit_minus)
  also have "take_bit 32 (uint w) = uint w" using u by (simp add: take_bit_int_eq_self)
  finally have eq: "sint w = uint w - 2 ^ 32 * of_bool (bit (uint w) 31)" .
  show ?thesis
  proof (cases "bit (uint w) 31")
    case True
    with eq u assms show ?thesis by simp
  next
    case False
    with eq show ?thesis by simp
  qed
qed

lemma sint_nonneg_unat: "0 \<le> sint (w::cint) \<Longrightarrow> int (unat w) = sint w"
  by (simp add: sint_nonneg_uint)

lemma static_cast_int_le: "sint (static_cast_int n) \<le> int n"
proof -
  have "sint (static_cast_int n) \<le> uint (static_cast_int n)" by (rule sint_le_uint)
  also have "\<dots> = int (unat (word_of_nat n :: cint))" by (simp add: static_cast_int_def)
  also have "\<dots> = int (n mod 2 ^ 32)" by (simp add: unat_of_nat)
  also have "\<dots> \<le> int n" by simp
  finally show ?thesis .
qed

lemma static_cast_int_exact: "n < 2 ^ 31 \<Longrightarrow> sint (static_cast_int n) = int n"
  by (simp add: static_cast_int_def signed_of_nat signed_take_bit_int_eq_self)

subsection \<open>The loop that builds the summary\<close>

lemma join_sp_snoc: "join_sp (ts @ [t]) = (if ts = [] then t else join_sp ts @ '' '' @ t)"
  by (induction ts rule: join_sp.induct) auto

lemma summary_loop_inv:
  assumes "0 \<le> sint i" "sint i \<le> sint max_length"
    and "sint max_length < sint (static_cast_int (length tokens))"
  shows "summary_loop tokens max_length i (join_sp (take (unat i) tokens)) =
         join_sp (take (nat (sint max_length)) tokens)"
  using assms
proof (induction "nat (sint max_length - sint i)" arbitrary: i)
  case 0
  then have eq: "sint i = sint max_length" by simp
  then have "\<not> i <s max_length" by (simp add: word_sless_alt)
  moreover have "unat i = nat (sint max_length)"
    using sint_nonneg_unat [of i] "0.prems"(1) eq by linarith
  ultimately show ?case by (simp add: summary_loop.simps [of tokens max_length i])
next
  case (Suc k)
  then have lt: "sint i < sint max_length" by linarith
  then have g1: "i <s max_length" by (simp add: word_sless_alt)
  have g2: "i <s static_cast_int (length tokens)"
    using lt Suc.prems(3) by (simp add: word_sless_alt)
  have m: "sint max_length < 2 ^ 31" using sint_lt [of max_length] by simp
  have succ: "sint (i + 1) = sint i + 1"
    using lt m Suc.prems(1) by (simp add: sint_word_ariths signed_take_bit_int_eq_self)
  have ui: "int (unat i) = sint i" using Suc.prems(1) by (rule sint_nonneg_unat)
  have ui1: "int (unat (i + 1)) = sint i + 1"
    using sint_nonneg_unat [of "i + 1"] succ Suc.prems(1) by simp
  then have ui1': "unat (i + 1) = Suc (unat i)" using ui by linarith
  have "sint i < int (length tokens)"
    using lt Suc.prems(3) static_cast_int_le [of "length tokens"] by linarith
  then have inb: "unat i < length tokens" using ui by linarith
  have "0 <s i \<longleftrightarrow> 0 < sint i" by (simp add: word_sless_alt)
  also have "\<dots> \<longleftrightarrow> 0 < unat i" using ui by linarith
  also have "\<dots> \<longleftrightarrow> take (unat i) tokens \<noteq> []" using inb by (auto simp: take_eq_Nil)
  finally have pos: "0 <s i \<longleftrightarrow> take (unat i) tokens \<noteq> []" .
  have step: "(if 0 <s i then join_sp (take (unat i) tokens) @ '' ''
               else join_sp (take (unat i) tokens)) @ tokens ! unat i
              = join_sp (take (unat (i + 1)) tokens)"
    unfolding ui1' take_Suc_conv_app_nth [OF inb] join_sp_snoc using pos by simp
  have "summary_loop tokens max_length i (join_sp (take (unat i) tokens)) =
        summary_loop tokens max_length (i + 1) (join_sp (take (unat (i + 1)) tokens))"
    using g1 g2 step by (simp add: summary_loop.simps [of tokens max_length i])
  also have "\<dots> = join_sp (take (nat (sint max_length)) tokens)"
  proof (rule Suc.hyps(1))
    show "k = nat (sint max_length - sint (i + 1))" using Suc.hyps(2) succ by linarith
    show "0 \<le> sint (i + 1)" using succ Suc.prems(1) by simp
    show "sint (i + 1) \<le> sint max_length" using succ lt by simp
    show "sint max_length < sint (static_cast_int (length tokens))" by (rule Suc.prems(3))
  qed
  finally show ?case .
qed

lemma summary_loop_neg:
  "sint max_length \<le> 0 \<Longrightarrow> summary_loop tokens max_length 0 [] = []"
  by (simp add: summary_loop.simps [of tokens max_length 0] word_sless_alt)

lemma summarize_text_eq:
  "summarize_text text max_length =
     (if sint (static_cast_int (length (read_tokens text))) \<le> sint max_length then text
      else join_sp (take (nat (sint max_length)) (read_tokens text)))"
proof (cases "sint (static_cast_int (length (read_tokens text))) \<le> sint max_length")
  case True
  then show ?thesis by (simp add: summarize_text_def word_sle_eq)
next
  case False
  show ?thesis
  proof (cases "0 \<le> sint max_length")
    case True
    with False summary_loop_inv [of 0 max_length "read_tokens text"]
    show ?thesis by (simp add: summarize_text_def word_sle_eq)
  next
    case neg: False
    with False show ?thesis by (simp add: summarize_text_def word_sle_eq summary_loop_neg)
  qed
qed

subsection \<open>The tokenizer\<close>

lemma read_tokens_Nil_iff: "read_tokens s = [] \<longleftrightarrow> (\<forall>c\<in>set s. isspace c)"
  by (simp add: read_tokens.simps [of s] Let_def dropWhile_eq_Nil_conv)

lemma read_tokens_space: "isspace c \<Longrightarrow> read_tokens (c # s) = read_tokens s"
  by (simp add: read_tokens.simps [of "c # s"] read_tokens.simps [of s])

lemma read_tokens_word:
  assumes "t \<noteq> []" "\<forall>c\<in>set t. \<not> isspace c" "isspace d"
  shows "read_tokens (t @ d # rest) = t # read_tokens rest"
proof -
  from assms(1) obtain c t' where t: "t = c # t'" by (cases t) auto
  with assms(2) have c: "\<not> isspace c" by simp
  have d1: "dropWhile isspace (t @ d # rest) = t @ d # rest" using c by (simp add: t)
  have tw: "takeWhile (\<lambda>c. \<not> isspace c) (t @ d # rest) = t"
    using assms(2,3) by (simp add: takeWhile_append2)
  have dw: "dropWhile (\<lambda>c. \<not> isspace c) (t @ d # rest) = d # rest"
    using assms(2,3) by (simp add: dropWhile_append2)
  have ne: "t @ d # rest \<noteq> []" by simp
  have "read_tokens (t @ d # rest) = t # read_tokens (d # rest)"
    by (subst read_tokens.simps) (simp only: Let_def d1 tw dw ne if_False)
  then show ?thesis using assms(3) by (simp add: read_tokens_space)
qed

lemma read_tokens_single:
  assumes "t \<noteq> []" "\<forall>c\<in>set t. \<not> isspace c"
  shows "read_tokens t = [t]"
proof -
  from assms(1) obtain c t' where t: "t = c # t'" by (cases t) auto
  with assms(2) have c: "\<not> isspace c" by simp
  have d1: "dropWhile isspace t = t" using c by (simp add: t)
  have tw: "takeWhile (\<lambda>c. \<not> isspace c) t = t" using assms(2) by simp
  have dw: "dropWhile (\<lambda>c. \<not> isspace c) t = []" using assms(2) by simp
  have e: "read_tokens [] = []" by (simp add: read_tokens.simps [of "[]"])
  show ?thesis by (subst read_tokens.simps) (simp only: Let_def d1 tw dw assms(1) if_False e)
qed

lemma read_tokens_join_sp:
  "\<forall>t\<in>set ts. t \<noteq> [] \<and> (\<forall>c\<in>set t. \<not> isspace c) \<Longrightarrow> read_tokens (join_sp ts) = ts"
proof (induction ts rule: join_sp.induct)
  case 1
  then show ?case by (simp add: read_tokens.simps [of "[]"])
next
  case (2 t)
  then show ?case by (simp add: read_tokens_single)
next
  case (3 t u ts)
  have sp: "isspace (CHR '' '')" by (simp add: isspace_def)
  have "read_tokens (t @ CHR '' '' # join_sp (u # ts)) = t # read_tokens (join_sp (u # ts))"
    using 3(2) sp by (intro read_tokens_word) auto
  then show ?case using 3 by simp
qed

lemma read_tokens_wellformed:
  "t \<in> set (read_tokens s) \<Longrightarrow> t \<noteq> [] \<and> (\<forall>c\<in>set t. \<not> isspace c)"
proof (induction s rule: read_tokens.induct)
  case (1 s)
  let ?r = "dropWhile isspace s"
  show ?case
  proof (cases "?r = []")
    case True
    with 1(2) show ?thesis by (simp add: read_tokens.simps [of s])
  next
    case False
    then have hd: "\<not> isspace (hd ?r)" by (rule hd_dropWhile)
    have "read_tokens s = takeWhile (\<lambda>c. \<not> isspace c) ?r #
        read_tokens (dropWhile (\<lambda>c. \<not> isspace c) ?r)"
      by (subst read_tokens.simps) (simp only: Let_def False if_False)
    with 1(2) have "t = takeWhile (\<lambda>c. \<not> isspace c) ?r \<or>
        t \<in> set (read_tokens (dropWhile (\<lambda>c. \<not> isspace c) ?r))"
      by simp
    then show ?thesis
    proof
      assume t: "t = takeWhile (\<lambda>c. \<not> isspace c) ?r"
      have "t \<noteq> []" using False hd unfolding t by (cases ?r) auto
      moreover have "\<forall>c\<in>set t. \<not> isspace c" unfolding t by (auto dest: set_takeWhileD)
      ultimately show ?thesis by simp
    next
      assume "t \<in> set (read_tokens (dropWhile (\<lambda>c. \<not> isspace c) ?r))"
      with 1(1) [OF refl False] show ?thesis by simp
    qed
  qed
qed

lemma read_tokens_join_take:
  "read_tokens (join_sp (take k (read_tokens s))) = take k (read_tokens s)"
  by (rule read_tokens_join_sp) (auto dest!: in_set_takeD read_tokens_wellformed)

lemma read_tokens_replicate:
  assumes "t \<noteq> []" "\<forall>c\<in>set t. \<not> isspace c"
  shows "read_tokens (concat (replicate n (t @ '' ''))) = replicate n t"
proof (induction n)
  case 0
  show ?case by (simp add: read_tokens.simps [of "[]"])
next
  case (Suc n)
  have sp: "isspace (CHR '' '')" by (simp add: isspace_def)
  have "read_tokens (t @ CHR '' '' # concat (replicate n (t @ '' ''))) =
        t # read_tokens (concat (replicate n (t @ '' '')))"
    using assms sp by (rule read_tokens_word)
  then show ?case using Suc by simp
qed

subsection \<open>The result of \<^verbatim>\<open>summarize_text\<close>\<close>

lemma summarize_text_bounded:
  assumes "length (read_tokens T) < 2 ^ 31"
  shows "summarize_text T m =
     (if int (length (read_tokens T)) \<le> sint m then T
      else join_sp (take (nat (sint m)) (read_tokens T)))"
  by (simp only: summarize_text_eq static_cast_int_exact [OF assms])

lemma read_tokens_overlong: "read_tokens overlong_text = replicate (2 ^ 31) ''a''"
proof -
  have "read_tokens (concat (replicate (2 ^ 31) (''a'' @ '' ''))) = replicate (2 ^ 31) ''a''"
    by (rule read_tokens_replicate) (simp_all add: isspace_def)
  then show ?thesis by (simp only: overlong_text_def append.simps)
qed

lemma concat_replicate_neq_Nil: "0 < n \<Longrightarrow> concat (replicate n (c # s)) \<noteq> []"
  by (cases n) auto

lemma take_1_replicate: "0 < n \<Longrightarrow> take 1 (replicate n x) = [x]"
  by (cases n) simp_all

lemma overlong_text_neq_Nil: "overlong_text \<noteq> []"
  unfolding overlong_text_def by (rule concat_replicate_neq_Nil) simp

lemma summarize_overlong:
  assumes "- (2 ^ 31) \<le> sint m"
  shows "summarize_text overlong_text m = overlong_text"
proof -
  have "sint (static_cast_int (length (read_tokens overlong_text))) = - (2 ^ 31)"
    by (simp only: read_tokens_overlong length_replicate static_cast_int_def) simp
  then show ?thesis using sint_ge [of m] by (simp add: summarize_text_eq)
qed

text \<open>
  Claim C1, as stated (every non-positive bound gives the empty summary), fails: at the bound
  0 a text of one space has no token, the count 0 is at most the bound, and the text comes
  back unchanged.
\<close>

theorem summarize_text_zero_bound_whitespace_counterexample:
  "sint (0::cint) \<le> 0 \<and> summarize_text '' '' 0 \<noteq> []"
proof -
  have "read_tokens '' '' = []" by (simp add: read_tokens_Nil_iff isspace_def)
  then show ?thesis by (simp add: summarize_text_eq static_cast_int_def)
qed

text \<open>
  Claim C1, amended: for every text with fewer than \<open>2\<^sup>3\<^sup>1\<close> whitespace tokens and every
  non-positive bound, \<^const>\<open>summarize_text\<close> returns the empty string, except when the bound
  is 0 and the text has no token at all (it is empty or whitespace only): then it returns the
  text unchanged.
\<close>

theorem summarize_text_nonpositive_bound:
  assumes "sint m \<le> 0" and "length (read_tokens T) < 2 ^ 31"
  shows "summarize_text T m = (if m = 0 \<and> read_tokens T = [] then T else [])"
proof (cases "m = 0")
  case True
  then show ?thesis using assms(2) by (simp add: summarize_text_bounded)
next
  case False
  have "sint m \<noteq> 0" using False by (simp add: signed_eq_0_iff)
  with assms(1) have "sint m < 0" by simp
  then show ?thesis using assms(2) False by (simp add: summarize_text_bounded)
qed

theorem summarize_text_nonpositive_bound_witness:
  "sint (- 2 :: cint) \<le> 0 \<and> length (read_tokens ''a b'') < 2 ^ 31 \<and>
   summarize_text ''a b'' (- 2) = []"
proof -
  have h1: "sint (- 2 :: cint) \<le> 0" by simp
  have toks: "read_tokens ''a b'' = [''a'', ''b'']" by code_simp
  have h2: "length (read_tokens ''a b'') < 2 ^ 31" by (simp add: toks)
  from summarize_text_nonpositive_bound [OF h1 h2] h1 h2 toks show ?thesis by simp
qed

text \<open>
  The summarizer on a text whose token count fits \<^verbatim>\<open>int\<close>, at a bound of at least 1: the
  text comes back unchanged when its token count is at most the bound, and otherwise the
  result is exactly the first \<open>maxTokens\<close> tokens joined by single spaces; in both cases the
  result has at most \<open>maxTokens\<close> tokens.
\<close>

theorem summarize_text_identity_or_prefix:
  assumes "1 \<le> sint maxTokens" and "length (read_tokens T) < 2 ^ 31"
  shows "(int (length (read_tokens T)) \<le> sint maxTokens \<longrightarrow> summarize_text T maxTokens = T) \<and>
         (sint maxTokens < int (length (read_tokens T)) \<longrightarrow>
            summarize_text T maxTokens = join_sp (take (nat (sint maxTokens)) (read_tokens T))) \<and>
         int (length (read_tokens (summarize_text T maxTokens))) \<le> sint maxTokens"
  using assms(1) by (simp add: summarize_text_bounded [OF assms(2)] read_tokens_join_take)

theorem summarize_text_identity_or_prefix_witness:
  "1 \<le> sint (3::cint) \<and> length (read_tokens ''one two three four five'') < 2 ^ 31 \<and>
   summarize_text ''one two three four five'' 3 = ''one two three''"
proof -
  have h1: "1 \<le> sint (3::cint)" by simp
  have toks: "read_tokens ''one two three four five'' = [''one'', ''two'', ''three'', ''four'', ''five'']"
    by code_simp
  have h2: "length (read_tokens ''one two three four five'') < 2 ^ 31" by (simp add: toks)
  from summarize_text_identity_or_prefix [OF h1 h2] h1 h2 toks show ?thesis by simp
qed

text \<open>
  Claim C2 (a text with more tokens than the bound is cut to its first \<open>maxTokens\<close> tokens,
  for every text) is what the code does on every text whose token count fits \<^verbatim>\<open>int\<close>, as
  shown above. On the text of \<open>2\<^sup>3\<^sup>1\<close> tokens the code departs from it: the conversion of the
  token count to \<^verbatim>\<open>int\<close> gives \<open>-2\<^sup>3\<^sup>1\<close>, which is at most the bound 1, and the text is returned
  whole, where the claim asks for its first token \<^verbatim>\<open>a\<close>.
\<close>

theorem summarize_text_overlong_returns_text:
  "length (read_tokens overlong_text) = 2 ^ 31 \<and>
   summarize_text overlong_text 1 = overlong_text \<and>
   join_sp (take 1 (read_tokens overlong_text)) = ''a'' \<and>
   overlong_text \<noteq> ''a''"
proof -
  have len: "length (read_tokens overlong_text) = 2 ^ 31"
    by (simp only: read_tokens_overlong length_replicate)
  have s: "summarize_text overlong_text 1 = overlong_text" by (rule summarize_overlong) simp
  have "take 1 (replicate (2 ^ 31) ''a'') = [''a'']" by (rule take_1_replicate) simp
  then have "take 1 (read_tokens overlong_text) = [''a'']" by (simp only: read_tokens_overlong)
  then have first: "join_sp (take 1 (read_tokens overlong_text)) = ''a''" by simp
  have "read_tokens ''a'' = [''a'']" by (rule read_tokens_single) (simp_all add: isspace_def)
  then have "length (read_tokens ''a'') \<noteq> length (read_tokens overlong_text)"
    by (simp only: len) simp
  then have "overlong_text \<noteq> ''a''" by auto
  with len s first show ?thesis by simp
qed

text \<open>
  The summarizer on a text whose token count fits \<^verbatim>\<open>int\<close>, at a bound below 1: the result
  is empty at every negative bound; at the bound 0 the text comes back verbatim when it
  contains no non-whitespace character, and the result is empty otherwise.
\<close>

theorem summarize_text_negative_and_zero_bound:
  assumes "length (read_tokens T) < 2 ^ 31"
  shows "(sint maxTokens < 0 \<longrightarrow> summarize_text T maxTokens = []) \<and>
         (maxTokens = 0 \<longrightarrow>
            ((\<forall>c\<in>set T. isspace c) \<longrightarrow> summarize_text T maxTokens = T) \<and>
            (\<not> (\<forall>c\<in>set T. isspace c) \<longrightarrow> summarize_text T maxTokens = []))"
  by (simp add: summarize_text_bounded [OF assms] flip: read_tokens_Nil_iff)

theorem summarize_text_negative_and_zero_bound_witness:
  "length (read_tokens '' '') < 2 ^ 31 \<and> summarize_text '' '' 0 = '' '' \<and>
   summarize_text '' '' (- 1) = []"
proof -
  have toks: "read_tokens '' '' = []" by code_simp
  have h: "length (read_tokens '' '') < 2 ^ 31" by (simp add: toks)
  have sp: "\<forall>c\<in>set '' ''. isspace c" by (simp add: isspace_def)
  from summarize_text_negative_and_zero_bound [OF h, of 0]
    summarize_text_negative_and_zero_bound [OF h, of "- 1"] h sp
  show ?thesis by simp
qed

text \<open>
  Claim C10 (the empty string at every negative bound, for every input) is what the code does
  on every text whose token count fits \<^verbatim>\<open>int\<close>, as shown above. On the text of \<open>2\<^sup>3\<^sup>1\<close>
  tokens the code departs from it: at the bound \<open>-1\<close> the converted token count \<open>-2\<^sup>3\<^sup>1\<close> is at
  most the bound, and the text is returned, not the empty string.
\<close>

theorem summarize_text_negative_bound_overlong_returns_text:
  "sint (- 1 :: cint) < 0 \<and> summarize_text overlong_text (- 1) = overlong_text \<and>
   overlong_text \<noteq> []"
proof -
  have "summarize_text overlong_text (- 1) = overlong_text" by (rule summarize_overlong) simp
  then show ?thesis using overlong_text_neq_Nil by simp
qed

section \<open>Properties of relationship inference\<close>

lemma str_find_iff_sublist: "str_find s e \<noteq> npos \<longleftrightarrow> sublist e s"
  by (induction s) (auto simp: sublist_Cons_right)

lemma getline_loop_Nil: "getline_loop [] = []"
  by (simp add: getline_loop.simps [of "[]"])

lemma getline_loop_no_period:
  assumes "CHR ''.'' \<notin> set s"
  shows "getline_loop s = (if s = [] then [] else [s])"
proof -
  have tw: "takeWhile (\<lambda>c. c \<noteq> CHR ''.'') s = s" using assms by (auto intro: takeWhile_eq_all_conv [THEN iffD2])
  have dw: "dropWhile (\<lambda>c. c \<noteq> CHR ''.'') s = []" using assms by auto
  show ?thesis by (subst getline_loop.simps) (simp add: tw dw)
qed

lemma getline_loop_period:
  assumes "CHR ''.'' \<notin> set a"
  shows "getline_loop (a @ CHR ''.'' # rest) = a # getline_loop rest"
proof -
  have tw: "takeWhile (\<lambda>c. c \<noteq> CHR ''.'') (a @ CHR ''.'' # rest) = a"
    using assms by (subst takeWhile_append2) auto
  have dw: "dropWhile (\<lambda>c. c \<noteq> CHR ''.'') (a @ CHR ''.'' # rest) = CHR ''.'' # rest"
    using assms by (subst dropWhile_append2) auto
  show ?thesis by (subst getline_loop.simps) (simp add: tw dw)
qed

lemma getline_loop_sentence:
  "sentence \<in> set (getline_loop s) \<Longrightarrow> sublist sentence s \<and> CHR ''.'' \<notin> set sentence"
proof (induction s rule: getline_loop.induct)
  case (1 s)
  let ?a = "takeWhile (\<lambda>c. c \<noteq> CHR ''.'') s"
  let ?d = "dropWhile (\<lambda>c. c \<noteq> CHR ''.'') s"
  have split: "s = ?a @ ?d" by simp
  have a: "CHR ''.'' \<notin> set ?a" by (auto dest: set_takeWhileD)
  show ?case
  proof (cases "s = []")
    case True
    with 1(2) show ?thesis by (simp add: getline_loop_Nil)
  next
    case ne: False
    show ?thesis
    proof (cases ?d)
      case Nil
      then have "getline_loop s = [?a]"
        by (subst getline_loop.simps) (simp only: ne if_False list.case)
      with 1(2) have "sentence = ?a" by simp
      moreover have "prefix ?a s" by (metis split prefixI)
      ultimately show ?thesis using a by auto
    next
      case (Cons delim rest)
      then have "getline_loop s = ?a # getline_loop rest"
        by (subst getline_loop.simps) (simp only: ne if_False list.case)
      with 1(2) consider "sentence = ?a" | "sentence \<in> set (getline_loop rest)" by auto
      then show ?thesis
      proof cases
        case 1
        moreover have "prefix ?a s" by (metis split prefixI)
        ultimately show ?thesis using a by auto
      next
        case 2
        then have "sublist sentence rest" and np: "CHR ''.'' \<notin> set sentence"
          using "1.IH" [OF ne Cons] by simp_all
        moreover have "suffix rest s" by (metis split Cons suffix_def append.assoc append_Cons append_Nil)
        ultimately have "sublist sentence s"
          by (meson sublist_order.order.trans suffix_imp_sublist)
        with np show ?thesis by simp
      qed
    qed
  qed
qed

lemma set_extract_relationships:
  "set (extract_relationships T E) = set (candidate_relationships (getline_loop T) E)"
  by (simp add: extract_relationships_def)

lemma candidate_relationships_iff:
  "(s, p, ob) \<in> set (candidate_relationships sentences E) \<longleftrightarrow>
     (\<exists>sentence type1 list1 type2 list2.
        sentence \<in> set sentences \<and> (type1, list1) \<in> set E \<and> s \<in> set list1 \<and>
        sublist s sentence \<and> (type2, list2) \<in> set E \<and> ob \<in> set list2 \<and> ob \<noteq> s \<and>
        sublist ob sentence \<and> p = ''RELATED_TO_'' @ type2)"
  unfolding candidate_relationships_def
  by (auto simp: str_find_iff_sublist simp flip: str_find_iff_sublist) blast+

lemma distinct_remdups_adj_sorted:
  fixes xs :: "'a::linorder list"
  shows "sorted xs \<Longrightarrow> distinct (remdups_adj xs)"
proof (induction xs rule: remdups_adj.induct)
  case (3 x y xs)
  show ?case
  proof (cases "x = y")
    case True
    with 3 show ?thesis by simp
  next
    case False
    from "3.prems" have "x \<le> y" and "\<forall>z\<in>set xs. y \<le> z" and "sorted (y # xs)" by simp_all
    with False have "x \<notin> set (y # xs)" by auto
    with 3 False \<open>sorted (y # xs)\<close> show ?thesis by simp
  qed
qed simp_all

lemma sorted_distinct_extract: "sorted (extract_relationships T E) \<and> distinct (extract_relationships T E)"
proof -
  have "sorted (sort (candidate_relationships (getline_loop T) E))" by simp
  then show ?thesis
    unfolding extract_relationships_def Let_def
    by (simp add: distinct_remdups_adj_sorted)
qed

lemma extract_relationships_example:
  "extract_relationships ''ab.c'' [(''x'', [''a'', ''b'']), (''y'', [''c'', ''b''])] =
     [(''a'', ''RELATED_TO_x'', ''b''), (''a'', ''RELATED_TO_y'', ''b''),
      (''b'', ''RELATED_TO_x'', ''a'')]"
  by code_simp

text \<open>
  Claim C3: every triple (subject, predicate, object) of \<^const>\<open>extract_relationships\<close> has its
  subject in the list of some category of the mapping, its object in the list of some category
  \<open>c\<close> with the predicate equal to \<^verbatim>\<open>RELATED_TO_\<close> followed by \<open>c\<close>, and a subject that differs
  from the object as a string.
\<close>

theorem extract_relationships_wellformed:
  assumes "(subject, predicate, object) \<in> set (extract_relationships T E)"
  shows "(\<exists>c l. (c, l) \<in> set E \<and> subject \<in> set l) \<and>
         (\<exists>c l. (c, l) \<in> set E \<and> object \<in> set l \<and> predicate = ''RELATED_TO_'' @ c) \<and>
         subject \<noteq> object"
  using assms unfolding set_extract_relationships candidate_relationships_iff by blast

theorem extract_relationships_wellformed_witness:
  "(''a'', ''RELATED_TO_y'', ''b'') \<in>
     set (extract_relationships ''ab.c'' [(''x'', [''a'', ''b'']), (''y'', [''c'', ''b''])]) \<and>
   (\<exists>c l. (c, l) \<in> set [(''x'', [''a'', ''b'']), (''y'', [''c'', ''b''])] \<and> ''a'' \<in> set l) \<and>
   (\<exists>c l. (c, l) \<in> set [(''x'', [''a'', ''b'']), (''y'', [''c'', ''b''])] \<and> ''b'' \<in> set l \<and>
      ''RELATED_TO_y'' = ''RELATED_TO_'' @ c) \<and>
   ''a'' \<noteq> ''b''"
proof -
  have h: "(''a'', ''RELATED_TO_y'', ''b'') \<in>
     set (extract_relationships ''ab.c'' [(''x'', [''a'', ''b'']), (''y'', [''c'', ''b''])])"
    by (simp add: extract_relationships_example)
  from extract_relationships_wellformed [OF h] h show ?thesis by blast
qed

text \<open>
  Claim C4: for each sentence of the text, each entry \<open>(type1, e1)\<close> of the mapping with \<open>e1\<close> a
  substring of the sentence and each entry \<open>(type2, e2)\<close> with \<open>e2\<close> a substring of the sentence
  and \<open>e2 \<noteq> e1\<close>, the triple \<open>(e1, RELATED_TO_type2, e2)\<close> is in the result; the pair yields the
  triple of the other direction too. Presence is substring containment, so an entity inside a
  longer entity of the sentence is a substring of the sentence and counts as present.
\<close>

theorem extract_relationships_complete:
  assumes "sentence \<in> set (getline_loop T)"
    and "(type1, list1) \<in> set E" "e1 \<in> set list1" "sublist e1 sentence"
    and "(type2, list2) \<in> set E" "e2 \<in> set list2" "sublist e2 sentence"
    and "e2 \<noteq> e1"
  shows "(e1, ''RELATED_TO_'' @ type2, e2) \<in> set (extract_relationships T E) \<and>
         (e2, ''RELATED_TO_'' @ type1, e1) \<in> set (extract_relationships T E)"
proof -
  have "(e1, ''RELATED_TO_'' @ type2, e2) \<in> set (extract_relationships T E)"
    unfolding set_extract_relationships candidate_relationships_iff using assms by blast
  moreover have "(e2, ''RELATED_TO_'' @ type1, e1) \<in> set (extract_relationships T E)"
    unfolding set_extract_relationships candidate_relationships_iff using assms by blast
  ultimately show ?thesis ..
qed

theorem extract_relationships_complete_witness:
  "''ab'' \<in> set (getline_loop ''ab.c'') \<and> sublist ''a'' ''ab'' \<and> sublist ''b'' ''ab'' \<and> ''b'' \<noteq> ''a'' \<and>
   (''a'', ''RELATED_TO_y'', ''b'') \<in>
     set (extract_relationships ''ab.c'' [(''x'', [''a'', ''b'']), (''y'', [''c'', ''b''])]) \<and>
   (''b'', ''RELATED_TO_x'', ''a'') \<in>
     set (extract_relationships ''ab.c'' [(''x'', [''a'', ''b'']), (''y'', [''c'', ''b''])])"
proof -
  have g: "getline_loop ''ab.c'' = [''ab'', ''c'']" by code_simp
  have h1: "''ab'' \<in> set (getline_loop ''ab.c'')" by (simp add: g)
  have h2: "(''x'', [''a'', ''b'']) \<in> set [(''x'', [''a'', ''b'']), (''y'', [''c'', ''b''])]" by simp
  have h3: "''a'' \<in> set [''a'', ''b'']" by simp
  have h4: "sublist ''a'' ''ab''" by code_simp
  have h5: "(''y'', [''c'', ''b'']) \<in> set [(''x'', [''a'', ''b'']), (''y'', [''c'', ''b''])]" by simp
  have h6: "''b'' \<in> set [''c'', ''b'']" by simp
  have h7: "sublist ''b'' ''ab''" by code_simp
  have h8: "''b'' \<noteq> ''a''" by simp
  from extract_relationships_complete [OF h1 h2 h3 h4 h5 h6 h7 h8] h1 h4 h7 h8 show ?thesis by simp
qed

text \<open>
  Claim C5: the result of \<^const>\<open>extract_relationships\<close> is sorted in the lexicographic order of
  (subject, predicate, object) and has no duplicate triple.
\<close>

theorem extract_relationships_sorted_distinct:
  "sorted (extract_relationships T E) \<and> distinct (extract_relationships T E)"
  by (rule sorted_distinct_extract)

text \<open>
  Claim C8, as stated, fails where the last fragment is empty: the empty text has no period and
  yields no sentence at all, not the one sentence that is the whole text; and after the period
  that ends \<^verbatim>\<open>a.\<close> no empty sentence follows.
\<close>

theorem getline_loop_empty_fragment_counterexample:
  "CHR ''.'' \<notin> set [] \<and> getline_loop [] \<noteq> [[]] \<and> getline_loop ''a.'' = [''a'']"
proof -
  have "getline_loop ''a.'' = [''a'']" by code_simp
  then show ?thesis by (simp add: getline_loop_Nil)
qed

text \<open>
  Claim C8, amended: segmentation splits the text at every period. A fragment \<open>a\<close> without a
  period that is followed by a period is a sentence, and segmentation goes on behind that
  period; the fragment behind the last period, or the whole text when it has no period, is
  the last sentence when it is not empty, and gives no sentence when it is empty.
\<close>

theorem getline_loop_splits_on_period:
  assumes "CHR ''.'' \<notin> set a"
  shows "getline_loop (a @ CHR ''.'' # rest) = a # getline_loop rest \<and>
         getline_loop a = (if a = [] then [] else [a])"
  using assms by (simp add: getline_loop_period getline_loop_no_period)

theorem getline_loop_splits_on_period_witness:
  "CHR ''.'' \<notin> set ''ab'' \<and> getline_loop ''ab.cd'' = [''ab'', ''cd''] \<and> getline_loop ''ab'' = [''ab'']"
proof -
  have h: "CHR ''.'' \<notin> set ''ab''" by simp
  have h': "CHR ''.'' \<notin> set ''cd''" by simp
  from getline_loop_splits_on_period [OF h, of "''cd''"] getline_loop_splits_on_period [OF h', of "[]"] h show ?thesis by simp
qed

text \<open>
  Claim C9: for every text and every mapping, also one that does not come from the text, the
  subject and the object of every triple are contiguous substrings of the text and contain no
  period; so a string with a period in it is never the subject or the object of a triple.
\<close>

theorem extract_relationships_substrings_without_period:
  assumes "(subject, predicate, object) \<in> set (extract_relationships T E)"
  shows "sublist subject T \<and> sublist object T \<and>
         CHR ''.'' \<notin> set subject \<and> CHR ''.'' \<notin> set object"
proof -
  from assms obtain sentence where s: "sentence \<in> set (getline_loop T)"
    and sub: "sublist subject sentence" "sublist object sentence"
    unfolding set_extract_relationships candidate_relationships_iff by blast
  from getline_loop_sentence [OF s] have st: "sublist sentence T" and np: "CHR ''.'' \<notin> set sentence"
    by simp_all
  from sub st have "sublist subject T" "sublist object T"
    by (meson sublist_order.order.trans)+
  moreover from sub np have "CHR ''.'' \<notin> set subject" "CHR ''.'' \<notin> set object"
    by (auto dest: set_mono_sublist)
  ultimately show ?thesis by simp
qed

theorem extract_relationships_substrings_without_period_witness:
  "(''b'', ''RELATED_TO_x'', ''a'') \<in>
     set (extract_relationships ''ab.c'' [(''x'', [''a'', ''b'']), (''y'', [''c'', ''b''])]) \<and>
   sublist ''b'' ''ab.c'' \<and> sublist ''a'' ''ab.c'' \<and> CHR ''.'' \<notin> set ''b'' \<and> CHR ''.'' \<notin> set ''a''"
proof -
  have h: "(''b'', ''RELATED_TO_x'', ''a'') \<in>
     set (extract_relationships ''ab.c'' [(''x'', [''a'', ''b'']), (''y'', [''c'', ''b''])])"
    by (simp add: extract_relationships_example)
  from extract_relationships_substrings_without_period [OF h] h show ?thesis by simp
qed

section \<open>Properties of entity extraction\<close>

lemma initialize_patterns_eq:
  "initialize_patterns =
     [(''date'', date_pattern), (''email'', email_pattern), (''location'', location_pattern),
      (''organization'', organization_pattern), (''person'', person_pattern),
      (''url'', url_pattern)]"
  by (simp add: initialize_patterns_def)

lemma extract_entities_eq:
  "extract_entities rx T =
     [(''date'', collect_matches (rx date_pattern T) []),
      (''email'', collect_matches (rx email_pattern T) []),
      (''location'', collect_matches (rx location_pattern T) []),
      (''organization'', collect_matches (rx organization_pattern T) []),
      (''person'', collect_matches (rx person_pattern T) []),
      (''url'', collect_matches (rx url_pattern T) [])]"
  by (simp add: extract_entities_def initialize_patterns_eq)

lemma collect_matches_acc:
  "collect_matches ms acc = acc @ filter (\<lambda>x. x \<notin> set acc) (first_occurrences ms)"
proof (induction ms arbitrary: acc)
  case Nil
  show ?case by simp
next
  case (Cons m ms)
  show ?case
  proof (cases "m \<in> set acc")
    case True
    have "filter (\<lambda>x. x \<notin> set acc) (filter (\<lambda>y. y \<noteq> m) (first_occurrences ms)) =
          filter (\<lambda>x. x \<notin> set acc) (first_occurrences ms)"
      using True by (auto intro: filter_cong)
    with True Cons [of acc] show ?thesis by simp
  next
    case False
    have "filter (\<lambda>x. x \<notin> set (acc @ [m])) (first_occurrences ms) =
          filter (\<lambda>x. x \<notin> set acc) (filter (\<lambda>y. y \<noteq> m) (first_occurrences ms))"
      by (auto intro: filter_cong)
    with False Cons [of "acc @ [m]"] show ?thesis by simp
  qed
qed

lemma collect_matches_first_occurrences: "collect_matches ms [] = first_occurrences ms"
  by (simp add: collect_matches_acc)

lemma set_first_occurrences: "set (first_occurrences xs) = set xs"
  by (induction xs) auto

lemma distinct_first_occurrences: "distinct (first_occurrences xs)"
  by (induction xs) (auto simp: set_first_occurrences)

lemma first_index_Cons:
  "first_index (x # xs) y = (if y = x then 0 else Suc (first_index xs y))"
  by (auto simp: first_index_def)

lemma first_seen_order:
  "sorted_wrt (\<lambda>x y. first_index xs x < first_index xs y) (first_occurrences xs)"
proof (induction xs)
  case Nil
  show ?case by simp
next
  case (Cons a xs)
  have "sorted_wrt (\<lambda>x y. first_index xs x < first_index xs y)
          (filter (\<lambda>y. y \<noteq> a) (first_occurrences xs))"
    using Cons by (rule sorted_wrt_filter)
  then have "sorted_wrt (\<lambda>x y. first_index (a # xs) x < first_index (a # xs) y)
          (filter (\<lambda>y. y \<noteq> a) (first_occurrences xs))"
    by (rule sorted_wrt_mono_rel [rotated]) (simp add: first_index_Cons)
  then show ?case by (simp add: first_index_Cons)
qed

lemma extract_entities_map:
  "extract_entities rx T =
     map (\<lambda>(entity_type, pattern). (entity_type, collect_matches (rx pattern T) []))
       initialize_patterns"
  by (simp add: extract_entities_eq initialize_patterns_eq)

text \<open>
  Claim C6: for every text, the empty one included, and whatever the matching engine finds, the
  result of \<^const>\<open>extract_entities\<close> has one entry for each of the six catalog categories.
\<close>

theorem extract_entities_all_categories:
  "map fst (extract_entities rx T) =
     [''date'', ''email'', ''location'', ''organization'', ''person'', ''url'']"
  by (simp add: extract_entities_eq)

text \<open>
  Claim C7: the list of every category \<open>C\<close> in the result of \<^const>\<open>extract_entities\<close> has no
  repeated string; it holds exactly the matches of the pattern of \<open>C\<close>, ordered by their first
  occurrence in the left-to-right sequence of matches.
\<close>

theorem extract_entities_distinct_first_seen:
  assumes "(C, l) \<in> set (extract_entities rx T)"
  shows "distinct l \<and>
         (\<exists>pattern. (C, pattern) \<in> set initialize_patterns \<and>
            set l = set (rx pattern T) \<and>
            sorted_wrt (\<lambda>x y. first_index (rx pattern T) x < first_index (rx pattern T) y) l)"
proof -
  from assms obtain pattern where p: "(C, pattern) \<in> set initialize_patterns"
    and l: "l = first_occurrences (rx pattern T)"
    unfolding extract_entities_map collect_matches_first_occurrences by auto
  have "distinct l" unfolding l by (rule distinct_first_occurrences)
  moreover have "set l = set (rx pattern T)" unfolding l by (rule set_first_occurrences)
  moreover have "sorted_wrt (\<lambda>x y. first_index (rx pattern T) x < first_index (rx pattern T) y) l"
    unfolding l by (rule first_seen_order)
  ultimately show ?thesis using p by blast
qed

theorem extract_entities_distinct_first_seen_witness:
  "(''date'', [''b'', ''a'']) \<in> set (extract_entities (\<lambda>p t. [''b'', ''a'', ''b'']) ''x'') \<and>
   distinct [''b'', ''a'']"
proof -
  have h: "(''date'', [''b'', ''a'']) \<in> set (extract_entities (\<lambda>p t. [''b'', ''a'', ''b'']) ''x'')"
    by (simp add: extract_entities_eq)
  from extract_entities_distinct_first_seen [OF h] h show ?thesis by simp
qed

end
